theory Spec2Isabelle
  imports Main "HOL-Library.AList" "HOL-Library.Sublist"
begin

section \<open>The prefix tree of \<^verbatim>\<open>trie.py\<close>\<close>

text \<open>
  A word is a sequence of symbols. The Python code iterates over the characters of a
  \<^verbatim>\<open>str\<close> and uses each one as a dictionary key; nothing else is asked of a
  character, so the symbol type is left open (\<open>'a\<close>) and a word is an \<open>'a list\<close>.
  At type \<open>char\<close> a word is a \<open>string\<close>.

  \<^verbatim>\<open>TrieNode.children\<close> is a Python \<^verbatim>\<open>dict\<close>: keys are unique, iteration follows
  insertion order, assigning to an existing key keeps its position, assigning to a new
  key appends, \<^verbatim>\<open>del\<close> removes the entry. It is modelled as an association list
  with \<open>map_of\<close> for \<^verbatim>\<open>get\<close>/\<^verbatim>\<open>in\<close>, \<open>AList.update\<close> for assignment and
  \<open>AList.delete\<close> for \<^verbatim>\<open>del\<close>. Uniqueness of keys is the predicate \<open>dict_ok\<close> below.

  Nodes are owned by exactly one parent (every node is created by \<^verbatim>\<open>insert\<close> and
  stored in one dictionary), so in-place mutation of a node is modelled by rebuilding
  the path from the root to it.

  No operation of the class contains a \<^verbatim>\<open>raise\<close>, and every dictionary access is
  guarded (\<^verbatim>\<open>in\<close>, \<^verbatim>\<open>get\<close>) or follows a successful lookup of the same key, so the
  results carry no error component. The repository holds a second copy of the module one
  directory below the first; it differs in comments and in an early return of
  \<^verbatim>\<open>_traverse\<close> for the empty string, which yields the root as the loop does.
\<close>

datatype 'a TrieNode = TrieNode (children: "('a \<times> 'a TrieNode) list") (is_end: bool)

record 'a Trie =
  trie_root :: "'a TrieNode"
  trie_size :: int

text \<open>\<^verbatim>\<open>Trie.__init__\<close>: a fresh root and a zero counter.\<close>

definition new_node :: "'a TrieNode" where
  "new_node = TrieNode [] False"

definition new_trie :: "'a Trie" where
  "new_trie = \<lparr>trie_root = new_node, trie_size = 0\<rparr>"

subsection \<open>\<^verbatim>\<open>_traverse\<close>, \<^verbatim>\<open>search\<close>, \<^verbatim>\<open>starts_with\<close>\<close>

text \<open>The loop of \<^verbatim>\<open>_traverse\<close>, started at a given node; \<open>None\<close> is Python's \<^verbatim>\<open>None\<close>.\<close>

fun traverse_from :: "'a TrieNode \<Rightarrow> 'a list \<Rightarrow> 'a TrieNode option" where
  "traverse_from node [] = Some node"
| "traverse_from node (ch # s) =
     (case map_of (children node) ch of
        None \<Rightarrow> None
      | Some child \<Rightarrow> traverse_from child s)"

definition traverse :: "'a Trie \<Rightarrow> 'a list \<Rightarrow> 'a TrieNode option" where
  "traverse t s = traverse_from (trie_root t) s"

definition search :: "'a Trie \<Rightarrow> 'a list \<Rightarrow> bool" where
  "search t word = (case traverse t word of None \<Rightarrow> False | Some node \<Rightarrow> is_end node)"

definition starts_with :: "'a Trie \<Rightarrow> 'a list \<Rightarrow> bool" where
  "starts_with t pfx = (traverse t pfx \<noteq> None)"

subsection \<open>\<^verbatim>\<open>insert\<close>\<close>

text \<open>
  The loop of \<^verbatim>\<open>insert\<close> from a given node over the rest of the word, followed by the
  marking of the final node. The result is the rebuilt node and whether the counter
  is incremented.
\<close>

fun insert_from :: "'a TrieNode \<Rightarrow> 'a list \<Rightarrow> 'a TrieNode \<times> bool" where
  "insert_from node [] =
     (if \<not> is_end node then (TrieNode (children node) True, True) else (node, False))"
| "insert_from node (ch # w) =
     (let child = (case map_of (children node) ch of None \<Rightarrow> new_node | Some c \<Rightarrow> c);
          (child', added) = insert_from child w
      in (TrieNode (AList.update ch child' (children node)) (is_end node), added))"

definition insert :: "'a list \<Rightarrow> 'a Trie \<Rightarrow> 'a Trie" where
  "insert word t =
     (if word = [] then t
      else let (r, added) = insert_from (trie_root t) word
           in \<lparr>trie_root = r, trie_size = (if added then trie_size t + 1 else trie_size t)\<rparr>)"

subsection \<open>\<^verbatim>\<open>delete\<close>\<close>

text \<open>
  The inner function \<^verbatim>\<open>_delete(node, depth)\<close>. The word from position \<^verbatim>\<open>depth\<close> on
  is the list argument; the counter \<^verbatim>\<open>self._size\<close> is threaded through. The result is
  the node and the counter after the call, and the returned flag (prune this node).
\<close>

fun delete_from :: "'a TrieNode \<Rightarrow> 'a list \<Rightarrow> int \<Rightarrow> ('a TrieNode \<times> int) \<times> bool" where
  "delete_from node [] sz =
     (if \<not> is_end node then ((node, sz), False)
      else ((TrieNode (children node) False, sz - 1), children node = []))"
| "delete_from node (ch # w) sz =
     (case map_of (children node) ch of
        None \<Rightarrow> ((node, sz), False)
      | Some child \<Rightarrow>
          (let ((child', sz'), should_prune) = delete_from child w sz
           in if should_prune
              then (let cs = AList.delete ch (children node)
                    in ((TrieNode cs (is_end node), sz'), \<not> is_end node \<and> cs = []))
              else ((TrieNode (AList.update ch child' (children node)) (is_end node), sz'),
                    False)))"

definition delete :: "'a list \<Rightarrow> 'a Trie \<Rightarrow> 'a Trie \<times> bool" where
  "delete word t =
     (if word = [] then (t, False)
      else let existed = search t word;
               ((r, sz), _) = delete_from (trie_root t) word (trie_size t)
           in (\<lparr>trie_root = r, trie_size = sz\<rparr>, existed))"

subsection \<open>\<^verbatim>\<open>count_prefix\<close>, \<^verbatim>\<open>get_words_with_prefix\<close>, \<^verbatim>\<open>size\<close>\<close>

text \<open>The inner \<^verbatim>\<open>dfs\<close> of \<^verbatim>\<open>count_prefix\<close>; the nonlocal counter is threaded through.\<close>

fun count_dfs :: "'a TrieNode \<Rightarrow> int \<Rightarrow> int" where
  "count_dfs (TrieNode cs e) count =
     fold (\<lambda>kv c. count_dfs (snd kv) c) cs (if e then count + 1 else count)"

definition count_prefix :: "'a Trie \<Rightarrow> 'a list \<Rightarrow> int" where
  "count_prefix t pfx =
     (case traverse t pfx of None \<Rightarrow> 0 | Some node \<Rightarrow> count_dfs node 0)"

text \<open>
  The inner \<^verbatim>\<open>dfs\<close> of \<^verbatim>\<open>get_words_with_prefix\<close>. \<^verbatim>\<open>path\<close> is pushed before and
  popped after each recursive call, so every call sees the path of its node;
  \<^verbatim>\<open>results\<close> is threaded through. \<open>limit\<close> is \<^verbatim>\<open>Optional[int]\<close>.
\<close>

fun words_dfs :: "int option \<Rightarrow> 'a TrieNode \<Rightarrow> 'a list \<Rightarrow> 'a list list \<Rightarrow> 'a list list" where
  "words_dfs limit (TrieNode cs e) path results =
     (if (case limit of None \<Rightarrow> False | Some l \<Rightarrow> int (length results) \<ge> l) then results
      else fold (\<lambda>kv res. words_dfs limit (snd kv) (path @ [fst kv]) res) cs
             (if e then results @ [path] else results))"

definition get_words_with_prefix :: "'a Trie \<Rightarrow> 'a list \<Rightarrow> int option \<Rightarrow> 'a list list" where
  "get_words_with_prefix t pfx limit =
     (case traverse t pfx of
        None \<Rightarrow> []
      | Some node \<Rightarrow> words_dfs limit node pfx [])"

text \<open>\<^verbatim>\<open>size\<close> (named \<open>size_of\<close> here, \<open>size\<close> being a constant of HOL) and \<^verbatim>\<open>is_empty\<close>.\<close>

definition size_of :: "'a Trie \<Rightarrow> int" where
  "size_of t = trie_size t"

definition is_empty :: "'a Trie \<Rightarrow> bool" where
  "is_empty t = (trie_size t = 0)"

subsection \<open>Sequences of operations\<close>

text \<open>
  The states a caller can produce: those obtained from \<^verbatim>\<open>Trie()\<close> by calls of the
  two mutating operations, \<^verbatim>\<open>insert\<close> and \<^verbatim>\<open>delete\<close>.
\<close>

datatype 'a operation = Insert "'a list" | Delete "'a list"

fun apply_op :: "'a operation \<Rightarrow> 'a Trie \<Rightarrow> 'a Trie" where
  "apply_op (Insert w) t = insert w t"
| "apply_op (Delete w) t = fst (delete w t)"

definition run :: "'a operation list \<Rightarrow> 'a Trie" where
  "run ops = fold apply_op ops new_trie"

section \<open>Notions used to state the properties\<close>

text \<open>
  The interpreter's recursion limit is a resource bound outside the program text and is
  not modelled: the recursive helpers are taken to run to completion on every word.
\<close>

text \<open>
  \<open>is_word node w\<close>: following \<open>w\<close> from \<open>node\<close> reaches a node whose flag is set.
  At the root this is \<open>search\<close>.
\<close>

definition is_word :: "'a TrieNode \<Rightarrow> 'a list \<Rightarrow> bool" where
  "is_word node w = (case traverse_from node w of None \<Rightarrow> False | Some m \<Rightarrow> is_end m)"

text \<open>
  \<open>dict_ok\<close>: in every node of the subtree the keys of \<^verbatim>\<open>children\<close> are pairwise
  distinct, as the keys of a Python dictionary are.
\<close>

fun dict_ok :: "'a TrieNode \<Rightarrow> bool" where
  "dict_ok (TrieNode cs e) = (distinct (map fst cs) \<and> (\<forall>kv \<in> set cs. dict_ok (snd kv)))"

text \<open>The number of nodes of a subtree whose flag \<^verbatim>\<open>is_end\<close> is set.\<close>

fun terminal_nodes :: "'a TrieNode \<Rightarrow> nat" where
  "terminal_nodes (TrieNode cs e) =
     (if e then 1 else 0) + sum_list (map (\<lambda>kv. terminal_nodes (snd kv)) cs)"

text \<open>
  A node is \<open>live\<close> when it is terminal or has a child. \<open>no_dead_below node\<close>: every node
  strictly below \<open>node\<close> is live. At the root this says that no node other than the root
  is both non-terminal and childless.
\<close>

abbreviation live :: "'a TrieNode \<Rightarrow> bool" where
  "live node \<equiv> is_end node \<or> children node \<noteq> []"

fun no_dead_below :: "'a TrieNode \<Rightarrow> bool" where
  "no_dead_below (TrieNode cs e) =
     (\<forall>kv \<in> set cs. live (snd kv) \<and> no_dead_below (snd kv))"

text \<open>
  The words of a subtree, relative to its top node, in the order in which a depth-first
  walk over the dictionaries meets them.
\<close>

fun words_below :: "'a TrieNode \<Rightarrow> 'a list list" where
  "words_below (TrieNode cs e) =
     (if e then [[]] else []) @
     concat (map (\<lambda>kv. map ((#) (fst kv)) (words_below (snd kv))) cs)"

text \<open>
  What a result limit leaves of the list \<open>xs\<close> still to be produced when \<open>n\<close> results
  are already there.
\<close>

fun cap :: "int option \<Rightarrow> nat \<Rightarrow> 'b list \<Rightarrow> 'b list" where
  "cap None n xs = xs"
| "cap (Some l) n xs = take (nat (l - int n)) xs"

text \<open>
  Bookkeeping over a sequence of calls, started in state \<open>t\<close>:
  the words passed to \<^verbatim>\<open>insert\<close>; the words for which \<^verbatim>\<open>delete\<close> returned
  \<^verbatim>\<open>True\<close>; the number of \<^verbatim>\<open>insert\<close> calls with a non-empty word that was not stored
  when the call was made; the number of \<^verbatim>\<open>delete\<close> calls that returned \<^verbatim>\<open>True\<close>.
\<close>

fun inserted_words :: "'a operation list \<Rightarrow> 'a list list" where
  "inserted_words [] = []"
| "inserted_words (Insert w # ops) = w # inserted_words ops"
| "inserted_words (Delete w # ops) = inserted_words ops"

fun deleted_words :: "'a operation list \<Rightarrow> 'a Trie \<Rightarrow> 'a list list" where
  "deleted_words [] t = []"
| "deleted_words (Insert w # ops) t = deleted_words ops (insert w t)"
| "deleted_words (Delete w # ops) t =
     (if snd (delete w t) then [w] else []) @ deleted_words ops (fst (delete w t))"

fun added_count :: "'a operation list \<Rightarrow> 'a Trie \<Rightarrow> nat" where
  "added_count [] t = 0"
| "added_count (Insert w # ops) t =
     (if w \<noteq> [] \<and> \<not> search t w then 1 else 0) + added_count ops (insert w t)"
| "added_count (Delete w # ops) t = added_count ops (fst (delete w t))"

fun removed_count :: "'a operation list \<Rightarrow> 'a Trie \<Rightarrow> nat" where
  "removed_count [] t = 0"
| "removed_count (Insert w # ops) t = removed_count ops (insert w t)"
| "removed_count (Delete w # ops) t =
     (if snd (delete w t) then 1 else 0) + removed_count ops (fst (delete w t))"

text \<open>The definitions unfolded when an operation is evaluated on a concrete trie.\<close>

lemmas eval_defs = run_def insert_def delete_def search_def starts_with_def traverse_def
  new_trie_def new_node_def Let_def split_beta size_of_def count_prefix_def
  get_words_with_prefix_def

section \<open>Auxiliary facts\<close>

subsection \<open>Looking words up\<close>

lemma is_word_Nil [simp]: "is_word node [] = is_end node"
  by (simp add: is_word_def)

lemma is_word_Cons [simp]:
  "is_word node (ch # w) =
     (case map_of (children node) ch of None \<Rightarrow> False | Some c \<Rightarrow> is_word c w)"
  by (simp add: is_word_def split: option.splits)

lemma search_is_word: "search t w = is_word (trie_root t) w"
  by (simp add: search_def traverse_def is_word_def)

lemma is_word_new_node [simp]: "is_word new_node w = False"
  by (cases w) (simp_all add: new_node_def)

lemma traverse_from_append:
  "traverse_from node (p @ s) =
     (case traverse_from node p of None \<Rightarrow> None | Some m \<Rightarrow> traverse_from m s)"
  by (induction p arbitrary: node) (auto split: option.splits)

lemma is_word_append:
  "is_word node (p @ s) =
     (case traverse_from node p of None \<Rightarrow> False | Some m \<Rightarrow> is_word m s)"
  by (simp add: is_word_def traverse_from_append split: option.splits)

subsection \<open>Association lists as dictionaries\<close>

lemma set_update_subset: "set (AList.update k v xs) \<subseteq> Set.insert (k, v) (set xs)"
  by (induction xs) auto

lemma set_delete_subset: "set (AList.delete k xs) \<subseteq> set xs"
  by (auto simp: AList.delete_eq)

lemma sum_update_Some:
  fixes f :: "'b \<Rightarrow> nat"
  shows "map_of xs k = Some u \<Longrightarrow>
    sum_list (map (\<lambda>kv. f (snd kv)) (AList.update k v xs)) + f u =
    sum_list (map (\<lambda>kv. f (snd kv)) xs) + f v"
  by (induction xs) (auto split: if_splits)

lemma sum_update_None:
  fixes f :: "'b \<Rightarrow> nat"
  shows "map_of xs k = None \<Longrightarrow>
    sum_list (map (\<lambda>kv. f (snd kv)) (AList.update k v xs)) =
    sum_list (map (\<lambda>kv. f (snd kv)) xs) + f v"
  by (induction xs) (auto split: if_splits)

lemma sum_delete_Some:
  fixes f :: "'b \<Rightarrow> nat"
  shows "distinct (map fst xs) \<Longrightarrow> map_of xs k = Some u \<Longrightarrow>
    sum_list (map (\<lambda>kv. f (snd kv)) (AList.delete k xs)) + f u =
    sum_list (map (\<lambda>kv. f (snd kv)) xs)"
proof (induction xs)
  case Nil
  then show ?case by simp
next
  case (Cons x xs)
  show ?case
  proof (cases "fst x = k")
    case True
    with Cons.prems have "k \<notin> fst ` set xs" "snd x = u" by auto
    then have "AList.delete k xs = xs" "snd x = u"
      by (force simp: AList.delete_eq filter_id_conv)+
    with True show ?thesis by (cases x) (simp add: AList.delete_eq)
  next
    case False
    with Cons show ?thesis by (cases x) (auto simp: AList.delete_eq)
  qed
qed

subsection \<open>What \<^verbatim>\<open>insert\<close> does to a node\<close>

lemma insert_from_is_word:
  "is_word (fst (insert_from node w)) v = (v = w \<or> is_word node v)"
proof (induction w arbitrary: node v)
  case Nil
  then show ?case by (cases v) auto
next
  case (Cons ch w)
  then show ?case
    by (cases v) (auto simp: update_conv' split_beta Let_def split: option.splits)
qed

lemma insert_from_added: "snd (insert_from node w) = (\<not> is_word node w)"
  by (induction w arbitrary: node) (auto simp: split_beta Let_def split: option.splits)

lemma insert_from_is_end: "w \<noteq> [] \<Longrightarrow> is_end (fst (insert_from node w)) = is_end node"
  by (cases w) (auto simp: split_beta Let_def)

subsection \<open>What \<^verbatim>\<open>_delete\<close> does to a node\<close>

lemma delete_from_absent:
  "\<not> is_word node w \<Longrightarrow> delete_from node w sz = ((node, sz), False)"
proof (induction w arbitrary: node)
  case Nil
  then show ?case by simp
next
  case (Cons ch w)
  show ?case
  proof (cases "map_of (children node) ch")
    case None
    then show ?thesis by simp
  next
    case (Some child)
    with Cons.prems have "\<not> is_word child w" by simp
    then have "delete_from child w sz = ((child, sz), False)" by (rule Cons.IH)
    with Some show ?thesis by (simp add: update_triv)
  qed
qed

lemma delete_from_size:
  "snd (fst (delete_from node w sz)) = (if is_word node w then sz - 1 else sz)"
  by (induction w arbitrary: node) (auto simp: split_beta Let_def split: option.splits)

lemma delete_from_pruned:
  "snd (delete_from node w sz) \<Longrightarrow> fst (fst (delete_from node w sz)) = TrieNode [] False"
  by (cases w) (auto simp: split_beta Let_def split: option.splits if_splits)

lemma delete_from_is_end:
  "w \<noteq> [] \<Longrightarrow> is_end (fst (fst (delete_from node w sz))) = is_end node"
  by (cases w) (auto simp: split_beta Let_def split: option.splits)

lemma delete_from_is_word:
  "is_word (fst (fst (delete_from node w sz))) v = (is_word node v \<and> v \<noteq> w)"
proof (induction w arbitrary: node v)
  case Nil
  then show ?case by (cases v) auto
next
  case (Cons ch w)
  show ?case
  proof (cases "map_of (children node) ch")
    case None
    then show ?thesis by (cases v) auto
  next
    case (Some child)
    let ?r = "delete_from child w sz"
    have IH: "\<And>u. is_word (fst (fst ?r)) u = (is_word child u \<and> u \<noteq> w)"
      by (rule Cons.IH)
    show ?thesis
    proof (cases "snd ?r")
      case True
      then have "fst (fst ?r) = TrieNode [] False" by (rule delete_from_pruned)
      with IH have gone: "\<And>u. is_word child u \<Longrightarrow> u = w"
        by (metis is_word_new_node new_node_def)
      from True Some show ?thesis
        by (cases v) (auto simp: split_beta Let_def delete_conv' dest: gone split: option.splits)
    next
      case False
      with Some IH show ?thesis
        by (cases v) (auto simp: split_beta Let_def update_conv' split: option.splits)
    qed
  qed
qed

lemma delete_from_keeps_nodes:
  "is_word node x \<Longrightarrow> strict_prefix w x \<Longrightarrow>
   \<not> snd (delete_from node w sz) \<and>
   (traverse_from (fst (fst (delete_from node w sz))) s = None \<longleftrightarrow> traverse_from node s = None)"
proof (induction w arbitrary: node x s)
  case Nil
  then obtain c x' where "x = c # x'" by (cases x) auto
  with Nil.prems have "children node \<noteq> []" by (auto split: option.splits)
  then show ?case by (cases s) auto
next
  case (Cons ch w)
  from Cons.prems(2) obtain x' where x: "x = ch # x'" and sp: "strict_prefix w x'"
    by (cases x) auto
  with Cons.prems(1) obtain child where
    child: "map_of (children node) ch = Some child" and word: "is_word child x'"
    by (auto split: option.splits)
  have IH: "\<not> snd (delete_from child w sz)"
    "\<And>s. traverse_from (fst (fst (delete_from child w sz))) s = None \<longleftrightarrow> traverse_from child s = None"
    using Cons.IH [OF word sp] by blast+
  from child IH show ?case
    by (cases s) (auto simp: split_beta Let_def update_conv' split: option.splits)
qed

subsection \<open>Preservation of the invariants\<close>

lemma dict_ok_sel:
  "dict_ok node = (distinct (map fst (children node)) \<and> (\<forall>kv \<in> set (children node). dict_ok (snd kv)))"
  by (cases node) simp

lemma terminal_nodes_sel:
  "terminal_nodes node =
     (if is_end node then 1 else 0) + sum_list (map (\<lambda>kv. terminal_nodes (snd kv)) (children node))"
  by (cases node) simp

lemma no_dead_below_sel:
  "no_dead_below node =
     (\<forall>kv \<in> set (children node). (is_end (snd kv) \<or> children (snd kv) \<noteq> []) \<and> no_dead_below (snd kv))"
  by (cases node) simp

lemma dict_ok_new_node [simp]: "dict_ok new_node"
  by (simp add: new_node_def)

lemma insert_from_dict_ok: "dict_ok node \<Longrightarrow> dict_ok (fst (insert_from node w))"
proof (induction w arbitrary: node)
  case Nil
  then show ?case by (cases node) simp
next
  case (Cons ch w)
  let ?child = "case map_of (children node) ch of None \<Rightarrow> new_node | Some c \<Rightarrow> c"
  have "dict_ok ?child"
    using Cons.prems by (auto simp: dict_ok_sel [of node] split: option.splits dest!: map_of_SomeD)
  then have "dict_ok (fst (insert_from ?child w))" by (rule Cons.IH)
  with Cons.prems show ?case
    using set_update_subset [of ch "fst (insert_from ?child w)" "children node"]
    by (auto simp: split_beta Let_def dict_ok_sel [of node] distinct_update)
qed

lemma delete_from_dict_ok: "dict_ok node \<Longrightarrow> dict_ok (fst (fst (delete_from node w sz)))"
proof (induction w arbitrary: node)
  case Nil
  then show ?case by (cases node) simp
next
  case (Cons ch w)
  show ?case
  proof (cases "map_of (children node) ch")
    case None
    with Cons.prems show ?thesis by simp
  next
    case (Some child)
    with Cons.prems have "dict_ok child"
      by (auto simp: dict_ok_sel [of node] dest!: map_of_SomeD)
    then have "dict_ok (fst (fst (delete_from child w sz)))" by (rule Cons.IH)
    with Cons.prems Some show ?thesis
      using set_update_subset [of ch "fst (fst (delete_from child w sz))" "children node"]
        set_delete_subset [of ch "children node"]
      by (auto simp: split_beta Let_def dict_ok_sel [of node] distinct_update distinct_delete)
  qed
qed

lemma insert_from_terminal_nodes:
  "terminal_nodes (fst (insert_from node w)) =
     terminal_nodes node + (if is_word node w then 0 else 1)"
proof (induction w arbitrary: node)
  case Nil
  then show ?case by (cases node) simp
next
  case (Cons ch w)
  show ?case
  proof (cases "map_of (children node) ch")
    case None
    then show ?thesis
      using Cons.IH [of new_node]
      by (simp add: split_beta Let_def terminal_nodes_sel [of node] sum_update_None)
        (simp add: new_node_def)
  next
    case (Some child)
    then show ?thesis
      using Cons.IH [of child]
        sum_update_Some [of "children node" ch child terminal_nodes "fst (insert_from child w)"]
      by (simp add: split_beta Let_def terminal_nodes_sel [of node])
  qed
qed

lemma delete_from_terminal_nodes:
  "dict_ok node \<Longrightarrow>
   terminal_nodes (fst (fst (delete_from node w sz))) + (if is_word node w then 1 else 0) =
     terminal_nodes node"
proof (induction w arbitrary: node)
  case Nil
  then show ?case by (cases node) simp
next
  case (Cons ch w)
  show ?case
  proof (cases "map_of (children node) ch")
    case None
    then show ?thesis by simp
  next
    case (Some child)
    let ?r = "delete_from child w sz"
    from Cons.prems Some have ok: "dict_ok child" "distinct (map fst (children node))"
      by (auto simp: dict_ok_sel [of node] dest!: map_of_SomeD)
    then have IH: "terminal_nodes (fst (fst ?r)) + (if is_word child w then 1 else 0) =
        terminal_nodes child"
      by (intro Cons.IH)
    show ?thesis
    proof (cases "snd ?r")
      case True
      then have "fst (fst ?r) = TrieNode [] False" by (rule delete_from_pruned)
      with IH have "terminal_nodes child = (if is_word child w then 1 else 0)" by simp
      with True Some show ?thesis
        using sum_delete_Some [OF ok(2) Some, of terminal_nodes]
        by (simp add: split_beta Let_def terminal_nodes_sel [of node])
    next
      case False
      with Some IH show ?thesis
        using sum_update_Some [of "children node" ch child terminal_nodes "fst (fst ?r)"]
        by (simp add: split_beta Let_def terminal_nodes_sel [of node])
    qed
  qed
qed

lemma insert_from_live: "live (fst (insert_from node w))"
  by (cases w) (auto simp: split_beta Let_def update_nonempty)

lemma insert_from_no_dead:
  "no_dead_below node \<Longrightarrow> no_dead_below (fst (insert_from node w))"
proof (induction w arbitrary: node)
  case Nil
  then show ?case by (cases node) simp
next
  case (Cons ch w)
  let ?child = "case map_of (children node) ch of None \<Rightarrow> new_node | Some c \<Rightarrow> c"
  have "no_dead_below ?child"
    using Cons.prems
    by (auto simp: no_dead_below_sel [of node] new_node_def split: option.splits dest!: map_of_SomeD)
  then have "no_dead_below (fst (insert_from ?child w))" by (rule Cons.IH)
  moreover have "live (fst (insert_from ?child w))" by (rule insert_from_live)
  ultimately show ?case
    using Cons.prems set_update_subset [of ch "fst (insert_from ?child w)" "children node"]
    by (auto simp: split_beta Let_def no_dead_below_sel [of node])
qed

lemma delete_from_no_dead:
  "no_dead_below node \<Longrightarrow>
   no_dead_below (fst (fst (delete_from node w sz))) \<and>
   (live node \<longrightarrow> \<not> snd (delete_from node w sz) \<longrightarrow> live (fst (fst (delete_from node w sz))))"
proof (induction w arbitrary: node)
  case Nil
  then show ?case by (cases node) simp
next
  case (Cons ch w)
  show ?case
  proof (cases "map_of (children node) ch")
    case None
    with Cons.prems show ?thesis by simp
  next
    case (Some child)
    let ?r = "delete_from child w sz"
    from Cons.prems Some have "live child" "no_dead_below child"
      by (auto simp: no_dead_below_sel [of node] dest!: map_of_SomeD)
    with Cons.IH [of child]
    have IH: "no_dead_below (fst (fst ?r))" "\<not> snd ?r \<Longrightarrow> live (fst (fst ?r))"
      by blast+
    show ?thesis
    proof (cases "snd ?r")
      case True
      with Some Cons.prems show ?thesis
        using set_delete_subset [of ch "children node"]
        by (auto simp: split_beta Let_def no_dead_below_sel [of node])
    next
      case False
      with Some Cons.prems IH show ?thesis
        using set_update_subset [of ch "fst (fst ?r)" "children node"]
        by (auto simp: split_beta Let_def no_dead_below_sel [of node] update_nonempty)
    qed
  qed
qed

lemma traverse_from_dict_ok:
  "dict_ok node \<Longrightarrow> traverse_from node p = Some m \<Longrightarrow> dict_ok m"
proof (induction p arbitrary: node)
  case Nil
  then show ?case by simp
next
  case (Cons ch p)
  then show ?case
    by (auto simp: dict_ok_sel [of node] split: option.splits dest!: map_of_SomeD)
qed

subsection \<open>Reachable states\<close>

lemma run_snoc: "run (ops @ [x]) = apply_op x (run ops)"
  by (simp add: run_def)

lemma run_induct:
  assumes "P new_trie" and "\<And>t x. P t \<Longrightarrow> P (apply_op x t)"
  shows "P (run ops)"
proof (induction ops rule: rev_induct)
  case Nil
  from assms(1) show ?case by (simp add: run_def)
next
  case (snoc x ops)
  then show ?case by (simp add: run_snoc assms(2))
qed

lemma apply_op_root_not_end:
  "\<not> is_end (trie_root t) \<Longrightarrow> \<not> is_end (trie_root (apply_op x t))"
  by (cases x)
    (auto simp: insert_def delete_def split_beta Let_def insert_from_is_end delete_from_is_end)

lemma run_root_not_end: "\<not> is_end (trie_root (run ops))"
  by (rule run_induct) (simp_all add: new_trie_def new_node_def apply_op_root_not_end)

lemma apply_op_dict_ok: "dict_ok (trie_root t) \<Longrightarrow> dict_ok (trie_root (apply_op x t))"
  by (cases x)
    (auto simp: insert_def delete_def split_beta Let_def insert_from_dict_ok delete_from_dict_ok)

lemma run_dict_ok: "dict_ok (trie_root (run ops))"
  by (rule run_induct) (simp_all add: new_trie_def apply_op_dict_ok)

lemma apply_op_no_dead:
  "no_dead_below (trie_root t) \<Longrightarrow> no_dead_below (trie_root (apply_op x t))"
  by (cases x)
    (auto simp: insert_def delete_def split_beta Let_def insert_from_no_dead delete_from_no_dead)

lemma run_no_dead: "no_dead_below (trie_root (run ops))"
  by (rule run_induct) (simp_all add: new_trie_def new_node_def apply_op_no_dead)

lemma insert_size:
  "trie_size (insert w t) = trie_size t + (if w \<noteq> [] \<and> \<not> search t w then 1 else 0)"
  by (simp add: insert_def split_beta Let_def insert_from_added search_is_word)

lemma delete_result: "snd (delete w t) = (w \<noteq> [] \<and> search t w)"
  by (simp add: delete_def split_beta Let_def)

lemma delete_size:
  "trie_size (fst (delete w t)) = trie_size t - (if snd (delete w t) then 1 else 0)"
  by (simp add: delete_def split_beta Let_def delete_from_size search_is_word)

lemma apply_op_size_inv:
  assumes "dict_ok (trie_root t)" and "trie_size t = int (terminal_nodes (trie_root t))"
  shows "trie_size (apply_op x t) = int (terminal_nodes (trie_root (apply_op x t)))"
proof (cases x)
  case (Insert w)
  with assms(2) show ?thesis
    by (simp add: insert_def split_beta Let_def insert_from_added insert_from_terminal_nodes)
next
  case (Delete w)
  with assms(2) show ?thesis
    using delete_from_terminal_nodes [OF assms(1), of w "trie_size t"]
    by (simp add: delete_def split_beta Let_def delete_from_size split: if_splits)
qed

lemma run_size_inv:
  "dict_ok (trie_root (run ops)) \<and> trie_size (run ops) = int (terminal_nodes (trie_root (run ops)))"
  by (rule run_induct)
    (simp_all add: new_trie_def new_node_def apply_op_dict_ok apply_op_size_inv)

lemma fold_size_count:
  "trie_size (fold apply_op ops t) =
     trie_size t + int (added_count ops t) - int (removed_count ops t)"
proof (induction ops arbitrary: t)
  case Nil
  show ?case by simp
next
  case (Cons x ops)
  show ?case
  proof (cases x)
    case (Insert w)
    then show ?thesis by (simp add: Cons.IH insert_size)
  next
    case (Delete w)
    then show ?thesis by (simp add: Cons.IH delete_size)
  qed
qed

subsection \<open>The two traversals\<close>

lemma cap_append:
  "cap limit n xs @ cap limit (n + length (cap limit n xs)) ys = cap limit n (xs @ ys)"
proof (cases limit)
  case None
  then show ?thesis by simp
next
  case (Some l)
  show ?thesis
  proof (cases "length xs \<le> nat (l - int n)")
    case True
    then have "nat (l - int (n + length xs)) = nat (l - int n) - length xs" by linarith
    with True Some show ?thesis by simp
  next
    case False
    then have "nat (l - int (n + nat (l - int n))) = 0" by linarith
    with False Some show ?thesis by (simp add: min_def)
  qed
qed

lemma words_fold:
  assumes "\<And>kv r. kv \<in> set cs \<Longrightarrow>
    words_dfs limit (snd kv) (path @ [fst kv]) r =
      r @ cap limit (length r) (map ((@) (path @ [fst kv])) (words_below (snd kv)))"
  shows "fold (\<lambda>kv res. words_dfs limit (snd kv) (path @ [fst kv]) res) cs r0 =
    r0 @ cap limit (length r0)
      (concat (map (\<lambda>kv. map ((@) (path @ [fst kv])) (words_below (snd kv))) cs))"
  using assms
proof (induction cs arbitrary: r0)
  case Nil
  then show ?case by (cases limit) simp_all
next
  case (Cons kv cs)
  let ?A = "map ((@) (path @ [fst kv])) (words_below (snd kv))"
  let ?B = "concat (map (\<lambda>kv. map ((@) (path @ [fst kv])) (words_below (snd kv))) cs)"
  have step: "words_dfs limit (snd kv) (path @ [fst kv]) r0 = r0 @ cap limit (length r0) ?A"
    by (rule Cons.prems) simp
  have "fold (\<lambda>kv res. words_dfs limit (snd kv) (path @ [fst kv]) res) cs (r0 @ cap limit (length r0) ?A)
      = (r0 @ cap limit (length r0) ?A) @ cap limit (length (r0 @ cap limit (length r0) ?A)) ?B"
    by (rule Cons.IH) (simp add: Cons.prems)
  also have "\<dots> = r0 @ cap limit (length r0) (?A @ ?B)"
    using cap_append [of limit "length r0" ?A ?B] by simp
  finally show ?case by (simp only: fold_Cons comp_apply step list.map concat.simps)
qed

lemma words_below_shift:
  "map ((@) path) (concat (map (\<lambda>kv. map ((#) (fst kv)) (words_below (snd kv))) cs)) =
   concat (map (\<lambda>kv. map ((@) (path @ [fst kv])) (words_below (snd kv))) cs)"
  by (induction cs) simp_all

lemma words_dfs_eq:
  "words_dfs limit node path res =
     res @ cap limit (length res) (map ((@) path) (words_below node))"
proof (induction limit node path res rule: words_dfs.induct)
  case (1 limit cs e path results)
  show ?case
  proof (cases "case limit of None \<Rightarrow> False | Some l \<Rightarrow> l \<le> int (length results)")
    case True
    then show ?thesis by (cases limit) simp_all
  next
    case False
    let ?C = "concat (map (\<lambda>kv. map ((@) (path @ [fst kv])) (words_below (snd kv))) cs)"
    let ?r0 = "if e then results @ [path] else results"
    have "fold (\<lambda>kv res. words_dfs limit (snd kv) (path @ [fst kv]) res) cs ?r0 =
        ?r0 @ cap limit (length ?r0) ?C"
      by (rule words_fold) (rule "1.IH" [OF False])
    moreover have "?r0 @ cap limit (length ?r0) ?C =
        results @ cap limit (length results) ((if e then [path] else []) @ ?C)"
    proof (cases limit)
      case None
      then show ?thesis by simp
    next
      case (Some l)
      with False have "nat (l - int (length results)) = Suc (nat (l - int (Suc (length results))))"
        by simp
      with Some show ?thesis by simp
    qed
    ultimately show ?thesis
      using False by (simp add: words_below_shift)
  qed
qed

lemma count_fold:
  assumes "\<And>kv c. kv \<in> set cs \<Longrightarrow> count_dfs (snd kv) c = c + int (terminal_nodes (snd kv))"
  shows "fold (\<lambda>kv c. count_dfs (snd kv) c) cs c0 =
    c0 + int (sum_list (map (\<lambda>kv. terminal_nodes (snd kv)) cs))"
  using assms by (induction cs arbitrary: c0) simp_all

lemma count_dfs_eq: "count_dfs node c = c + int (terminal_nodes node)"
proof (induction node c rule: count_dfs.induct)
  case (1 cs e count)
  have "fold (\<lambda>kv c. count_dfs (snd kv) c) cs (if e then count + 1 else count) =
      (if e then count + 1 else count) + int (sum_list (map (\<lambda>kv. terminal_nodes (snd kv)) cs))"
    by (rule count_fold) (rule "1.IH")
  then show ?case by simp
qed

lemma length_words_below: "length (words_below node) = terminal_nodes node"
proof (induction node rule: terminal_nodes.induct)
  case (1 cs e)
  then have "map (\<lambda>kv. length (words_below (snd kv))) cs = map (\<lambda>kv. terminal_nodes (snd kv)) cs"
    by simp
  then have "sum_list (map (\<lambda>kv. length (words_below (snd kv))) cs) =
      sum_list (map (\<lambda>kv. terminal_nodes (snd kv)) cs)"
    by (rule arg_cong)
  then show ?case by (simp add: length_concat comp_def)
qed

lemma words_below_mem:
  "w \<in> set (words_below node) \<longleftrightarrow>
     (w = [] \<and> is_end node) \<or>
     (\<exists>k c u. (k, c) \<in> set (children node) \<and> w = k # u \<and> u \<in> set (words_below c))"
  by (cases node) force

lemma set_words_below:
  "dict_ok node \<Longrightarrow> w \<in> set (words_below node) \<longleftrightarrow> is_word node w"
proof (induction w arbitrary: node)
  case Nil
  show ?case by (subst words_below_mem) simp
next
  case (Cons ch w)
  from Cons.prems have d: "distinct (map fst (children node))"
    and ok: "\<And>c. (ch, c) \<in> set (children node) \<Longrightarrow> dict_ok c"
    by (auto simp: dict_ok_sel [of node])
  have "ch # w \<in> set (words_below node) \<longleftrightarrow>
      (\<exists>c. (ch, c) \<in> set (children node) \<and> w \<in> set (words_below c))"
    by (subst words_below_mem) simp
  also have "\<dots> \<longleftrightarrow> (\<exists>c. (ch, c) \<in> set (children node) \<and> is_word c w)"
    using Cons.IH ok by blast
  also have "\<dots> \<longleftrightarrow> (\<exists>c. map_of (children node) ch = Some c \<and> is_word c w)"
    by (simp only: map_of_eq_Some_iff [OF d])
  also have "\<dots> \<longleftrightarrow> is_word node (ch # w)"
    by (cases "map_of (children node) ch") simp_all
  finally show ?case .
qed

lemma distinct_keyed_concat:
  assumes "distinct (map fst cs)" and "\<And>kv. kv \<in> set cs \<Longrightarrow> distinct (f kv)"
  shows "distinct (concat (map (\<lambda>kv. map ((#) (fst kv)) (f kv)) cs))"
  using assms
proof (induction cs)
  case Nil
  then show ?case by simp
next
  case (Cons kv cs)
  have "distinct (map ((#) (fst kv)) (f kv))"
    using Cons.prems(2) [of kv] by (simp add: distinct_map)
  moreover have "distinct (concat (map (\<lambda>kv. map ((#) (fst kv)) (f kv)) cs))"
    using Cons.prems by (intro Cons.IH) simp_all
  moreover have "set (map ((#) (fst kv)) (f kv)) \<inter>
      set (concat (map (\<lambda>kv. map ((#) (fst kv)) (f kv)) cs)) = {}"
    using Cons.prems(1) by force
  ultimately show ?case by simp
qed

lemma distinct_words_below: "dict_ok node \<Longrightarrow> distinct (words_below node)"
proof (induction node rule: words_below.induct)
  case (1 cs e)
  have "distinct (concat (map (\<lambda>kv. map ((#) (fst kv)) (words_below (snd kv))) cs))"
    using 1 by (intro distinct_keyed_concat) auto
  then show ?case by auto
qed

lemma stored_with_prefix:
  assumes "dict_ok node"
  shows "{w. is_word node w \<and> prefix p w} =
    (case traverse_from node p of None \<Rightarrow> {}
     | Some m \<Rightarrow> set (map ((@) p) (words_below m)))"
proof (cases "traverse_from node p")
  case None
  then show ?thesis by (auto simp: prefix_def is_word_append)
next
  case (Some m)
  with assms have "dict_ok m" by (rule traverse_from_dict_ok)
  then have "\<And>s. s \<in> set (words_below m) \<longleftrightarrow> is_word m s" by (rule set_words_below)
  with Some show ?thesis by (auto simp: prefix_def is_word_append)
qed

lemma card_stored_with_prefix:
  assumes "dict_ok node"
  shows "card {w. is_word node w \<and> prefix p w} =
    (case traverse_from node p of None \<Rightarrow> 0 | Some m \<Rightarrow> terminal_nodes m)"
proof (cases "traverse_from node p")
  case None
  then show ?thesis by (simp add: stored_with_prefix [OF assms])
next
  case (Some m)
  with assms have "dict_ok m" by (rule traverse_from_dict_ok)
  then have "distinct (map ((@) p) (words_below m))"
    by (simp add: distinct_map distinct_words_below inj_on_def)
  then have "card (set (map ((@) p) (words_below m))) = length (map ((@) p) (words_below m))"
    by (rule distinct_card)
  with Some show ?thesis
    by (simp add: stored_with_prefix [OF assms] length_words_below)
qed

lemma card_stored:
  "dict_ok (trie_root t) \<Longrightarrow> card {w. search t w} = terminal_nodes (trie_root t)"
  using card_stored_with_prefix [of "trie_root t" "[]"] by (simp add: search_is_word)

lemma words_with_prefix_unlimited:
  assumes "dict_ok (trie_root t)"
  shows "set (get_words_with_prefix t p None) = {w. search t w \<and> prefix p w}"
    and "distinct (get_words_with_prefix t p None)"
proof -
  show "set (get_words_with_prefix t p None) = {w. search t w \<and> prefix p w}"
    by (simp add: get_words_with_prefix_def traverse_def words_dfs_eq search_is_word
        stored_with_prefix [OF assms] split: option.splits)
  show "distinct (get_words_with_prefix t p None)"
  proof (cases "traverse_from (trie_root t) p")
    case None
    then show ?thesis by (simp add: get_words_with_prefix_def traverse_def)
  next
    case (Some m)
    with assms have "dict_ok m" by (rule traverse_from_dict_ok)
    then have "distinct (words_below m)" by (rule distinct_words_below)
    with Some show ?thesis
      by (simp add: get_words_with_prefix_def traverse_def words_dfs_eq distinct_map inj_on_def)
  qed
qed

lemma words_with_prefix_limited:
  "get_words_with_prefix t p (Some k) = take (nat k) (get_words_with_prefix t p None)"
  by (simp add: get_words_with_prefix_def words_dfs_eq split: option.splits)

section \<open>The properties\<close>

text \<open>
  C1. In every state reached from the empty trie, \<^verbatim>\<open>delete(W)\<close> returns true exactly when
  \<^verbatim>\<open>search(W)\<close> was true before the call, for every word \<open>W\<close>; and for a non-empty
  \<open>W\<close>, \<^verbatim>\<open>search(W)\<close> is false after the call.
\<close>

theorem delete_reports_presence:
  "snd (delete w (run ops)) = search (run ops) w \<and>
   (w \<noteq> [] \<longrightarrow> \<not> search (fst (delete w (run ops))) w)"
proof (cases "w = []")
  case True
  then show ?thesis
    using run_root_not_end [of ops] by (simp add: delete_def search_is_word)
next
  case False
  then show ?thesis
    by (simp add: delete_def split_beta Let_def search_is_word delete_from_is_word)
qed

theorem delete_reports_presence_witness:
  "''car'' \<noteq> [] \<and>
   snd (delete ''car'' (run [Insert ''car'', Insert ''card''])) \<and>
   search (run [Insert ''car'', Insert ''card'']) ''car'' \<and>
   \<not> search (fst (delete ''car'' (run [Insert ''car'', Insert ''card'']))) ''car''"
  using delete_reports_presence [of "''car''" "[Insert ''car'', Insert ''card'']"]
  by (simp add: eval_defs)

text \<open>
  C2, as stated: \<^verbatim>\<open>size()\<close> equals the number of distinct words ever inserted minus
  the number of distinct words successfully deleted. This fails once a deleted word is
  inserted again: after \<^verbatim>\<open>insert("a"); delete("a"); insert("a")\<close> the size is 1, while
  one distinct word was inserted and one distinct word was deleted.
\<close>

theorem size_distinct_words_counterexample:
  "size_of (run [Insert ''a'', Delete ''a'', Insert ''a'']) = 1 \<and>
   int (card (set (inserted_words [Insert ''a'', Delete ''a'', Insert ''a'']))) -
     int (card (set (deleted_words [Insert ''a'', Delete ''a'', Insert ''a''] new_trie))) = 0 \<and>
   size_of (run [Insert ''a'', Delete ''a'', Insert ''a'']) \<noteq>
     int (card (set (inserted_words [Insert ''a'', Delete ''a'', Insert ''a'']))) -
     int (card (set (deleted_words [Insert ''a'', Delete ''a'', Insert ''a''] new_trie)))"
  by (simp add: eval_defs)

text \<open>
  C2, amended. In every state reached from the empty trie by \<^verbatim>\<open>insert\<close> and
  \<^verbatim>\<open>delete\<close> calls, \<^verbatim>\<open>size()\<close> equals the number of nodes whose terminal flag is
  true, which is the number of words stored, and equals the number of \<^verbatim>\<open>insert\<close>
  calls that stored a non-empty word absent at the time of the call minus the number of
  \<^verbatim>\<open>delete\<close> calls that returned true. Inserting a word that is present and deleting a
  word that is absent leave \<^verbatim>\<open>size()\<close> unchanged.
\<close>

theorem size_counts_stored_words:
  "size_of (run ops) = int (terminal_nodes (trie_root (run ops))) \<and>
   size_of (run ops) = int (card {w. search (run ops) w}) \<and>
   size_of (run ops) = int (added_count ops new_trie) - int (removed_count ops new_trie) \<and>
   (search (run ops) w \<longrightarrow> size_of (insert w (run ops)) = size_of (run ops)) \<and>
   (\<not> search (run ops) w \<longrightarrow> size_of (fst (delete w (run ops))) = size_of (run ops))"
proof -
  have "size_of (run ops) = int (terminal_nodes (trie_root (run ops)))"
    using run_size_inv [of ops] by (simp add: size_of_def)
  moreover have "card {w. search (run ops) w} = terminal_nodes (trie_root (run ops))"
    using run_size_inv [of ops] by (simp add: card_stored)
  moreover have "size_of (run ops) = int (added_count ops new_trie) - int (removed_count ops new_trie)"
    using fold_size_count [of ops new_trie] by (simp add: size_of_def run_def new_trie_def)
  moreover have "search (run ops) w \<longrightarrow> size_of (insert w (run ops)) = size_of (run ops)"
    by (simp add: size_of_def insert_size)
  moreover have "\<not> search (run ops) w \<longrightarrow> size_of (fst (delete w (run ops))) = size_of (run ops)"
    by (simp add: size_of_def delete_size delete_result)
  ultimately show ?thesis by simp
qed

theorem size_counts_stored_words_witness:
  "search (run [Insert ''a'', Delete ''a'', Insert ''a'']) ''a'' \<and>
   \<not> search (run [Insert ''a'', Delete ''a'', Insert ''a'']) ''b'' \<and>
   size_of (run [Insert ''a'', Delete ''a'', Insert ''a'']) = 1 \<and>
   terminal_nodes (trie_root (run [Insert ''a'', Delete ''a'', Insert ''a''])) = 1 \<and>
   int (added_count [Insert ''a'', Delete ''a'', Insert ''a''] new_trie) -
     int (removed_count [Insert ''a'', Delete ''a'', Insert ''a''] new_trie) = 1 \<and>
   size_of (insert ''a'' (run [Insert ''a'', Delete ''a'', Insert ''a''])) = 1 \<and>
   size_of (fst (delete ''b'' (run [Insert ''a'', Delete ''a'', Insert ''a'']))) = 1"
  using size_counts_stored_words [of "[Insert ''a'', Delete ''a'', Insert ''a'']" "''a''"]
    size_counts_stored_words [of "[Insert ''a'', Delete ''a'', Insert ''a'']" "''b''"]
  by (simp add: eval_defs)

text \<open>
  C3. In every state reached from the empty trie, after a \<^verbatim>\<open>delete\<close> call completes
  no node other than the root is both non-terminal and childless.
\<close>

theorem delete_leaves_no_dead_branch:
  "no_dead_below (trie_root (fst (delete w (run ops))))"
  using run_no_dead [of "ops @ [Delete w]"] by (simp add: run_snoc)

theorem delete_leaves_no_dead_branch_witness:
  "trie_root (fst (delete ''abc'' (run [Insert ''abc'', Insert ''ad'']))) =
     TrieNode [(CHR ''a'', TrieNode [(CHR ''d'', TrieNode [] True)] False)] False \<and>
   no_dead_below (trie_root (fst (delete ''abc'' (run [Insert ''abc'', Insert ''ad'']))))"
  using delete_leaves_no_dead_branch [of "''abc''" "[Insert ''abc'', Insert ''ad'']"]
  by (simp add: eval_defs)

text \<open>
  C4. \<^verbatim>\<open>delete\<close> never over-prunes: when two distinct words \<open>V\<close> and \<open>W\<close> are both
  stored, \<^verbatim>\<open>search(V)\<close> is still true after \<^verbatim>\<open>delete(W)\<close>. The witness is the
  scenario with "car", "card" and "care".
\<close>

theorem delete_keeps_other_words:
  "search t v \<Longrightarrow> search t w \<Longrightarrow> v \<noteq> w \<Longrightarrow> search (fst (delete w t)) v"
  by (cases "w = []")
    (simp_all add: delete_def split_beta Let_def search_is_word delete_from_is_word)

theorem delete_keeps_other_words_witness:
  "search (run [Insert ''car'', Insert ''card'', Insert ''care'']) ''car'' \<and>
   search (run [Insert ''car'', Insert ''card'', Insert ''care'']) ''care'' \<and>
   search (run [Insert ''car'', Insert ''card'', Insert ''care'']) ''card'' \<and>
   ''car'' \<noteq> ''card'' \<and> ''care'' \<noteq> ''card'' \<and>
   search (fst (delete ''card'' (run [Insert ''car'', Insert ''card'', Insert ''care'']))) ''car'' \<and>
   search (fst (delete ''card'' (run [Insert ''car'', Insert ''card'', Insert ''care'']))) ''care'' \<and>
   \<not> search (fst (delete ''card'' (run [Insert ''car'', Insert ''card'', Insert ''care'']))) ''card''"
  using delete_keeps_other_words
    [of "run [Insert ''car'', Insert ''card'', Insert ''care'']" "''car''" "''card''"]
    delete_keeps_other_words
    [of "run [Insert ''car'', Insert ''card'', Insert ''care'']" "''care''" "''card''"]
  by (simp add: eval_defs)

text \<open>
  C5. In every state reached from the empty trie and for every prefix \<open>P\<close>, the empty one
  included, \<^verbatim>\<open>count_prefix(P)\<close> is the number of stored words that have \<open>P\<close> as a
  prefix; \<^verbatim>\<open>count_prefix("")\<close> equals \<^verbatim>\<open>size()\<close>; and \<^verbatim>\<open>count_prefix(P)\<close> is 0
  when there is no node at the path spelled by \<open>P\<close>.
\<close>

theorem count_prefix_counts_words:
  "count_prefix (run ops) p = int (card {w. search (run ops) w \<and> prefix p w}) \<and>
   count_prefix (run ops) [] = size_of (run ops) \<and>
   (traverse (run ops) p = None \<longrightarrow> count_prefix (run ops) p = 0)"
proof -
  have ok: "dict_ok (trie_root (run ops))" by (rule run_dict_ok)
  have "count_prefix (run ops) p = int (card {w. search (run ops) w \<and> prefix p w})"
    by (simp add: count_prefix_def traverse_def search_is_word count_dfs_eq
        card_stored_with_prefix [OF ok] split: option.splits)
  moreover have "count_prefix (run ops) [] = size_of (run ops)"
    using run_size_inv [of ops] by (simp add: count_prefix_def traverse_def count_dfs_eq size_of_def)
  moreover have "traverse (run ops) p = None \<longrightarrow> count_prefix (run ops) p = 0"
    by (simp add: count_prefix_def)
  ultimately show ?thesis by simp
qed

theorem count_prefix_counts_words_witness:
  "traverse (run [Insert ''cat'', Insert ''car'', Insert ''cart'', Insert ''dog'']) ''z'' = None \<and>
   count_prefix (run [Insert ''cat'', Insert ''car'', Insert ''cart'', Insert ''dog'']) ''z'' = 0 \<and>
   count_prefix (run [Insert ''cat'', Insert ''car'', Insert ''cart'', Insert ''dog'']) ''ca'' = 3 \<and>
   card {w. search (run [Insert ''cat'', Insert ''car'', Insert ''cart'', Insert ''dog'']) w \<and>
            prefix ''ca'' w} = 3"
  using count_prefix_counts_words
    [of "[Insert ''cat'', Insert ''car'', Insert ''cart'', Insert ''dog'']" "''z''"]
    count_prefix_counts_words
    [of "[Insert ''cat'', Insert ''car'', Insert ''cart'', Insert ''dog'']" "''ca''"]
  by (simp add: eval_defs)

text \<open>
  C6. In every state reached from the empty trie, for every prefix \<open>P\<close> and positive
  \<open>k\<close>, \<^verbatim>\<open>get_words_with_prefix(P, limit=k)\<close> returns at most \<open>k\<close> words, each with
  prefix \<open>P\<close> and each found by \<^verbatim>\<open>search\<close>; with \<^verbatim>\<open>limit=None\<close> it returns
  exactly the stored words with prefix \<open>P\<close>, each once.
\<close>

theorem words_with_prefix_correct:
  "(0 < k \<longrightarrow>
      int (length (get_words_with_prefix (run ops) p (Some k))) \<le> k \<and>
      (\<forall>w \<in> set (get_words_with_prefix (run ops) p (Some k)). prefix p w \<and> search (run ops) w)) \<and>
   set (get_words_with_prefix (run ops) p None) = {w. search (run ops) w \<and> prefix p w} \<and>
   distinct (get_words_with_prefix (run ops) p None)"
proof -
  have ok: "dict_ok (trie_root (run ops))" by (rule run_dict_ok)
  have "set (get_words_with_prefix (run ops) p (Some k)) \<subseteq> {w. search (run ops) w \<and> prefix p w}"
    using set_take_subset [of "nat k" "get_words_with_prefix (run ops) p None"]
    by (simp add: words_with_prefix_limited words_with_prefix_unlimited(1) [OF ok])
  moreover have "0 < k \<longrightarrow> int (length (get_words_with_prefix (run ops) p (Some k))) \<le> k"
    by (auto simp: words_with_prefix_limited min_def)
  ultimately show ?thesis
    using words_with_prefix_unlimited [OF ok, of p] by auto
qed

theorem words_with_prefix_correct_witness:
  "(0::int) < 2 \<and>
   get_words_with_prefix (run [Insert ''apple'', Insert ''apt'', Insert ''app'', Insert ''bat''])
     ''ap'' (Some 2) = [''app'', ''apple''] \<and>
   get_words_with_prefix (run [Insert ''apple'', Insert ''apt'', Insert ''app'', Insert ''bat''])
     ''ap'' None = [''app'', ''apple'', ''apt''] \<and>
   prefix ''ap'' ''app'' \<and> prefix ''ap'' ''apple'' \<and>
   search (run [Insert ''apple'', Insert ''apt'', Insert ''app'', Insert ''bat'']) ''app'' \<and>
   search (run [Insert ''apple'', Insert ''apt'', Insert ''app'', Insert ''bat'']) ''apple''"
  using words_with_prefix_correct
    [of 2 "[Insert ''apple'', Insert ''apt'', Insert ''app'', Insert ''bat'']" "''ap''"]
  by (simp add: eval_defs)

text \<open>
  C7. For a word \<open>W\<close> that is not stored, \<^verbatim>\<open>delete(W)\<close> returns false and leaves the
  trie as it was: the counter and every node, with its children and flag, are the same.
\<close>

theorem delete_absent_unchanged:
  "\<not> search t w \<Longrightarrow> delete w t = (t, False)"
  by (cases "w = []")
    (simp_all add: delete_def split_beta Let_def search_is_word delete_from_absent)

theorem delete_absent_unchanged_witness:
  "\<not> search (run [Insert ''car'', Insert ''card'']) ''ca'' \<and>
   \<not> search (run [Insert ''car'', Insert ''card'']) ''cart'' \<and>
   delete ''ca'' (run [Insert ''car'', Insert ''card'']) =
     (run [Insert ''car'', Insert ''card''], False) \<and>
   delete ''cart'' (run [Insert ''car'', Insert ''card'']) =
     (run [Insert ''car'', Insert ''card''], False)"
  using delete_absent_unchanged [of "run [Insert ''car'', Insert ''card'']" "''ca''"]
    delete_absent_unchanged [of "run [Insert ''car'', Insert ''card'']" "''cart''"]
  by (simp add: eval_defs)

text \<open>
  C8. The empty word is a defined case of every operation: \<^verbatim>\<open>insert("")\<close> and
  \<^verbatim>\<open>delete("")\<close> change nothing and \<^verbatim>\<open>delete("")\<close> returns false,
  \<^verbatim>\<open>starts_with("")\<close> is true, \<^verbatim>\<open>search("")\<close> is the root's terminal flag, and that
  flag is false in every state reached from the empty trie.
\<close>

theorem empty_word_defined:
  "insert [] t = t \<and> delete [] t = (t, False) \<and> starts_with t [] \<and>
   search t [] = is_end (trie_root t) \<and> \<not> search (run ops) []"
  using run_root_not_end [of ops]
  by (simp add: insert_def delete_def starts_with_def traverse_def search_def)

theorem empty_word_defined_witness:
  "insert [] (run [Insert ''a'']) = run [Insert ''a''] \<and>
   delete [] (run [Insert ''a'']) = (run [Insert ''a''], False) \<and>
   starts_with (run [Insert ''a'']) [] \<and>
   \<not> search (run [Insert ''a'', Insert [], Delete []]) []"
  using empty_word_defined [of "run [Insert ''a'']" "[Insert ''a'', Insert [], Delete []]"]
  by (simp add: eval_defs)

text \<open>
  C9. For every prefix \<open>P\<close> and every limit \<open>k \<le> 0\<close>,
  \<^verbatim>\<open>get_words_with_prefix(P, limit=k)\<close> returns the empty list, also when stored words
  with prefix \<open>P\<close> exist.
\<close>

theorem nonpositive_limit_empty:
  "k \<le> 0 \<Longrightarrow> get_words_with_prefix t p (Some k) = []"
  by (simp add: get_words_with_prefix_def words_dfs_eq split: option.splits)

theorem nonpositive_limit_empty_witness:
  "(0::int) \<le> 0 \<and> (- 3::int) \<le> 0 \<and>
   search (run [Insert ''car'', Insert ''card'']) ''car'' \<and> prefix ''ca'' ''car'' \<and>
   get_words_with_prefix (run [Insert ''car'', Insert ''card'']) ''ca'' (Some 0) = [] \<and>
   get_words_with_prefix (run [Insert ''car'', Insert ''card'']) ''ca'' (Some (- 3)) = []"
  using nonpositive_limit_empty [of 0 "run [Insert ''car'', Insert ''card'']" "''ca''"]
    nonpositive_limit_empty [of "- 3" "run [Insert ''car'', Insert ''card'']" "''ca''"]
  by (simp add: eval_defs)

text \<open>
  C10. In every state reached from the empty trie, when a stored word \<open>W\<close> is a strict
  prefix of another stored word \<open>X\<close>, \<^verbatim>\<open>delete(W)\<close> returns true and prunes nothing:
  the same paths exist before and after, \<^verbatim>\<open>search(W)\<close> is false afterwards, while
  \<^verbatim>\<open>starts_with(W)\<close> and \<^verbatim>\<open>search(X)\<close> are still true.
\<close>

theorem delete_of_prefix_word:
  "search (run ops) w \<Longrightarrow> search (run ops) x \<Longrightarrow> strict_prefix w x \<Longrightarrow>
   snd (delete w (run ops)) \<and>
   \<not> search (fst (delete w (run ops))) w \<and>
   starts_with (fst (delete w (run ops))) w \<and>
   search (fst (delete w (run ops))) x \<and>
   (\<forall>s. starts_with (fst (delete w (run ops))) s = starts_with (run ops) s)"
proof -
  assume w: "search (run ops) w" and x: "search (run ops) x" and sp: "strict_prefix w x"
  from w have ne: "w \<noteq> []"
    using run_root_not_end [of ops] by (auto simp: search_is_word)
  have keep: "\<And>s. starts_with (fst (delete w (run ops))) s = starts_with (run ops) s"
    using delete_from_keeps_nodes [of "trie_root (run ops)" x w "trie_size (run ops)"] x sp ne
    by (simp add: delete_def split_beta Let_def starts_with_def traverse_def search_is_word)
  from w have "starts_with (run ops) w"
    by (auto simp: search_def starts_with_def split: option.splits)
  with keep have "starts_with (fst (delete w (run ops))) w" by simp
  moreover from sp have "x \<noteq> w" by auto
  ultimately show ?thesis
    using w x ne keep
    by (simp add: delete_def split_beta Let_def search_is_word delete_from_is_word)
qed

theorem delete_of_prefix_word_witness:
  "search (run [Insert ''car'', Insert ''card'']) ''car'' \<and>
   search (run [Insert ''car'', Insert ''card'']) ''card'' \<and>
   strict_prefix ''car'' ''card'' \<and>
   snd (delete ''car'' (run [Insert ''car'', Insert ''card''])) \<and>
   \<not> search (fst (delete ''car'' (run [Insert ''car'', Insert ''card'']))) ''car'' \<and>
   starts_with (fst (delete ''car'' (run [Insert ''car'', Insert ''card'']))) ''car'' \<and>
   search (fst (delete ''car'' (run [Insert ''car'', Insert ''card'']))) ''card''"
  using delete_of_prefix_word [of "[Insert ''car'', Insert ''card'']" "''car''" "''card''"]
  by (simp add: eval_defs)

end
